theory Spec2Isabelle
  imports Main "HOL-Library.Sublist"
begin

section \<open>String helpers of the Go standard library used by the plugin\<close>

text \<open>
  Go strings are byte sequences; they are modelled as \<open>string\<close> (a list of \<open>char\<close>).
  Every cutset, prefix and pattern the plugin passes is ASCII, so bytes and runes agree.
\<close>

definition HasPrefix :: "string \<Rightarrow> string \<Rightarrow> bool" where
  "HasPrefix s pre = prefix pre s"

definition HasSuffix :: "string \<Rightarrow> string \<Rightarrow> bool" where
  "HasSuffix s suf = suffix suf s"

text \<open>\<open>strings.Trim(s, cutset)\<close>: drop the leading and trailing characters that are in the cutset.\<close>

definition Trim :: "string \<Rightarrow> string \<Rightarrow> string" where
  "Trim s cutset =
     rev (dropWhile (\<lambda>c. c \<in> set cutset) (rev (dropWhile (\<lambda>c. c \<in> set cutset) s)))"

text \<open>
  \<open>strings.ReplaceAll(s, old, new)\<close>: the non-overlapping occurrences of \<open>old\<close>, found from
  left to right, are replaced by \<open>new\<close>. For an empty \<open>old\<close> Go inserts \<open>new\<close> before every
  rune and at the end; the plugin only ever passes \<open>old = "..."\<close>.
\<close>

function strings_ReplaceAll :: "string \<Rightarrow> string \<Rightarrow> string \<Rightarrow> string" where
  "strings_ReplaceAll s old new =
     (if old = [] then new @ concat (map (\<lambda>c. c # new) s)
      else if s = [] then []
      else if prefix old s then new @ strings_ReplaceAll (drop (length old) s) old new
      else hd s # strings_ReplaceAll (tl s) old new)"
  by pat_completeness auto
termination
  by (relation "measure (\<lambda>(s, old, new). length s)") auto

declare strings_ReplaceAll.simps [simp del]

section \<open>The separator-collapsing regular expression\<close>

text \<open>
  \<open>dedupRegex = regexp.MustCompile(`(?ms)(---[\s]*){2,}`)\<close>. The class \<open>\s\<close> of Go's
  regexp package is \<open>[\t\n\f\r ]\<close>. The flags \<open>m\<close> and \<open>s\<close> only change \<open>^\<close>, \<open>$\<close> and
  \<open>.\<close>, none of which occurs in the pattern.
\<close>

definition isSpace :: "char \<Rightarrow> bool" where
  "isSpace c \<longleftrightarrow> c = CHR 0x09 \<or> c = CHR 0x0A \<or> c = CHR 0x0C \<or> c = CHR 0x0D \<or> c = CHR '' ''"

text \<open>
  \<open>dedupRegex_reps s\<close>: the greedy repetitions of the group \<open>---[\s]*\<close> at the start of
  \<open>s\<close>: how many there are, and the text left after them. A repetition starts with a dash,
  which is no space, so giving back spaces never enables a further repetition and the
  greedy choice is the leftmost-first match of the engine.
\<close>

function dedupRegex_reps :: "string \<Rightarrow> nat \<times> string" where
  "dedupRegex_reps s =
     (if prefix ''---'' s
      then (let (n, r) = dedupRegex_reps (dropWhile isSpace (drop 3 s)) in (Suc n, r))
      else (0, s))"
  by pat_completeness auto
termination
proof (relation "measure length")
  show "wf (measure length)" by simp
next
  fix s :: string
  assume "prefix ''---'' s"
  then have "3 \<le> length s" by (auto simp: prefix_def)
  moreover have "length (dropWhile isSpace (drop 3 s)) \<le> length (drop 3 s)"
    by (rule length_dropWhile_le)
  ultimately show "(dropWhile isSpace (drop 3 s), s) \<in> measure length" by simp
qed

declare dedupRegex_reps.simps [simp del]

lemma dedupRegex_reps_length:
  "length (snd (dedupRegex_reps s)) \<le> length s
   \<and> (0 < fst (dedupRegex_reps s) \<longrightarrow> length (snd (dedupRegex_reps s)) < length s)"
proof (induction s rule: dedupRegex_reps.induct)
  case (1 s)
  show ?case
  proof (cases "prefix ''---'' s")
    case True
    then have len: "3 \<le> length s" by (auto simp: prefix_def)
    have le: "length (dropWhile isSpace (drop 3 s)) \<le> length (drop 3 s)"
      by (rule length_dropWhile_le)
    from 1 [OF True] have "length (snd (dedupRegex_reps (dropWhile isSpace (drop 3 s))))
        \<le> length (dropWhile isSpace (drop 3 s))" by simp
    with len le have "length (snd (dedupRegex_reps (dropWhile isSpace (drop 3 s)))) < length s"
      by simp
    with True show ?thesis
      by (subst (1 2 3) dedupRegex_reps.simps) (simp add: split_beta)
  next
    case False
    then show ?thesis by (subst (1 2 3) dedupRegex_reps.simps) simp
  qed
qed

text \<open>
  \<open>dedupRegex.ReplaceAll(src, "---")\<close>: scanning from the left, the first position where
  the pattern matches (two or more repetitions) is replaced, and the scan goes on after
  the match. The pattern never matches the empty string.
\<close>

function dedupRegex_ReplaceAll :: "string \<Rightarrow> string" where
  "dedupRegex_ReplaceAll s =
     (if s = [] then []
      else if 2 \<le> fst (dedupRegex_reps s)
        then ''---'' @ dedupRegex_ReplaceAll (snd (dedupRegex_reps s))
        else hd s # dedupRegex_ReplaceAll (tl s))"
  by pat_completeness auto
termination
proof (relation "measure length")
  show "wf (measure length)" by simp
next
  fix s :: string
  assume "s \<noteq> []" "2 \<le> fst (dedupRegex_reps s)"
  then show "(snd (dedupRegex_reps s), s) \<in> measure length"
    using dedupRegex_reps_length [of s] by simp
next
  fix s :: string
  assume "s \<noteq> []"
  then show "(tl s, s) \<in> measure length" by (cases s) simp_all
qed

declare dedupRegex_ReplaceAll.simps [simp del]

section \<open>The merge of configuration documents\<close>

text \<open>
  \<open>droneConfigAppend\<close> (plugin.go, lines 293 to 307). The variadic \<open>appends\<close> is a list.
\<close>

fun droneConfigAppend :: "string \<Rightarrow> string list \<Rightarrow> string" where
  "droneConfigAppend droneConfig [] = droneConfig"
| "droneConfigAppend droneConfig (a # appends) =
     (let a1 = Trim a '' \<newline>'' in
      if a1 \<noteq> []
      then (let a2 = (if \<not> HasPrefix a1 ''---\<newline>'' then ''---\<newline>'' @ a1 else a1);
                d1 = droneConfig @ a2;
                d2 = (if \<not> HasSuffix d1 ''\<newline>'' then d1 @ ''\<newline>'' else d1)
            in droneConfigAppend d2 appends)
      else droneConfigAppend droneConfig appends)"

text \<open>The cleanup at the end of \<open>Find\<close> (plugin.go, lines 110 to 112).\<close>

definition cleanup :: "string \<Rightarrow> string" where
  "cleanup configData = dedupRegex_ReplaceAll (strings_ReplaceAll configData ''...'' '''')"

section \<open>Errors\<close>

datatype error =
    ScmError string
  | AtoiError string
  | NotAFile string
  | YamlError string
  | DidNotFind
  | ListingAsError string
  | NilDereference

text \<open>
  \<open>ScmError\<close>: whatever error a call of the SCM client returns; \<open>AtoiError\<close>: from
  \<open>strconv.Atoi\<close>; \<open>NotAFile file\<close>: \<open>fmt.Errorf("failed to get %s: is not a file", file)\<close>;
  \<open>YamlError\<close>: from \<open>yaml.Unmarshal\<close>; \<open>DidNotFind\<close>:
  \<open>errors.New("did not find a .drone.yml")\<close>; \<open>ListingAsError data\<close>:
  \<open>errors.New(string(ls.Data))\<close> in \<open>getAllConfigData\<close>; \<open>NilDereference\<close>: the run-time
  panic of reading \<open>ls.Data\<close> through a nil pointer (no error value of the program).
\<close>

section \<open>Paths: \<open>strings.Split\<close>, \<open>strconv.Atoi\<close>, \<open>path.Clean\<close> and \<open>path.Join\<close>\<close>

text \<open>\<open>strings.Split(s, sep)\<close> for a separator of one character (the plugin splits at \<open>"/"\<close>).\<close>

fun Split :: "string \<Rightarrow> char \<Rightarrow> string list" where
  "Split [] sep = [[]]"
| "Split (c # cs) sep =
     (if c = sep then [] # Split cs sep
      else (case Split cs sep of x # xs \<Rightarrow> (c # x) # xs | [] \<Rightarrow> [[c]]))"

text \<open>\<open>strings.Join(elems, sep)\<close>.\<close>

fun Join :: "string list \<Rightarrow> string \<Rightarrow> string" where
  "Join [] sep = []"
| "Join [x] sep = x"
| "Join (x # y # ys) sep = x @ sep @ Join (y # ys) sep"

text \<open>
  \<open>strconv.Atoi\<close>: an optional sign, then one or more decimal digits, and the value must
  fit Go's \<open>int\<close> (64 bits). Everything else is an error.
\<close>

definition isDigit :: "char \<Rightarrow> bool" where
  "isDigit c \<longleftrightarrow> (48::nat) \<le> of_char c \<and> of_char c \<le> (57::nat)"

definition digitsValue :: "string \<Rightarrow> int" where
  "digitsValue ds = foldl (\<lambda>n c. 10 * n + (int (of_char c) - 48)) 0 ds"

definition Atoi :: "string \<Rightarrow> error + int" where
  "Atoi s =
     (let neg = (s \<noteq> [] \<and> hd s = CHR ''-'');
          ds = (if s \<noteq> [] \<and> (hd s = CHR ''+'' \<or> hd s = CHR ''-'') then tl s else s)
      in if ds = [] \<or> \<not> list_all isDigit ds then Inl (AtoiError s)
         else (let v = (if neg then - digitsValue ds else digitsValue ds)
               in if v < - (2 ^ 63) \<or> 2 ^ 63 - 1 < v then Inl (AtoiError s) else Inr v))"

text \<open>
  \<open>path.Clean\<close>, by the rules of its documentation: the path is cut at its slashes; empty
  elements and \<open>.\<close> are dropped; \<open>..\<close> removes the element before it, is dropped at the
  start of a rooted path and is kept at the start of a relative one; the empty result is
  \<open>"."\<close>. \<open>cleanParts rooted out parts\<close> runs over the elements with the elements kept
  so far in \<open>out\<close>.
\<close>

fun cleanParts :: "bool \<Rightarrow> string list \<Rightarrow> string list \<Rightarrow> string list" where
  "cleanParts rooted out [] = out"
| "cleanParts rooted out (c # cs) =
     (if c = [] \<or> c = ''.'' then cleanParts rooted out cs
      else if c = ''..'' then
        (if out \<noteq> [] \<and> last out \<noteq> ''..'' then cleanParts rooted (butlast out) cs
         else if rooted then cleanParts rooted out cs
         else cleanParts rooted (out @ [''..'']) cs)
      else cleanParts rooted (out @ [c]) cs)"

definition path_Clean :: "string \<Rightarrow> string" where
  "path_Clean p =
     (if p = [] then ''.''
      else (let rooted = (hd p = CHR ''/'');
                out = cleanParts rooted [] (Split p CHR ''/'');
                r = (if rooted then ''/'' else []) @ Join out ''/''
            in if r = [] then ''.'' else r))"

text \<open>
  \<open>path.Join\<close>: the elements from the first non-empty one on are joined with slashes and
  the result is cleaned; with no non-empty element the result is the empty string.
\<close>

definition path_Join :: "string list \<Rightarrow> string" where
  "path_Join elem =
     (let es = dropWhile (\<lambda>e. e = []) elem
      in if es = [] then [] else path_Clean (Join es ''/''))"

section \<open>Data model\<close>

text \<open>The two leading fields of a configuration document that the plugin reads.\<close>

record droneConfig =
  Name :: string
  Kind :: string

text \<open>
  The parts of \<open>config.Request\<close> the plugin reads (\<open>Repo.Namespace\<close> and \<open>Repo.Name\<close>
  only appear in log lines, as does the \<open>UUID\<close> of a \<open>request\<close>). The fields of
  \<open>Build\<close> and \<open>Repo\<close> carry the name of their struct: \<open>Build_Before (Build req)\<close> is
  \<open>req.Build.Before\<close>.
\<close>

record build =
  Build_Trigger :: string
  Build_Ref :: string
  Build_Before :: string
  Build_After :: string

record repo =
  Repo_Slug :: string
  Repo_Config :: string

record config_Request =
  Build :: build
  Repo :: repo

text \<open>
  The SCM client (\<open>scm.Client\<close> of go-scm) is outside the repository: its three services
  the plugin calls are parameters. \<open>PullRequests.ListChanges\<close> and \<open>Git.ListChanges\<close>
  return an error or the paths of the changes; \<open>Contents.Find\<close> returns a content
  pointer (\<open>None\<close> is \<open>nil\<close>, \<open>Some d\<close> holds \<open>Data\<close>) together with an error
  (\<open>None\<close> is \<open>nil\<close>). The list options are always the zero value and are left out.
\<close>

record client =
  PullRequests_ListChanges :: "string \<Rightarrow> int \<Rightarrow> error + string list"
  Git_ListChanges :: "string \<Rightarrow> string \<Rightarrow> error + string list"
  Contents_Find :: "string \<Rightarrow> string \<Rightarrow> string \<Rightarrow> string option \<times> error option"

record request = config_Request +
  Client :: client

record plugin =
  server :: string
  token :: string
  concat :: bool
  fallback :: bool
  maxDepth :: int

text \<open>The calls made on the SCM client, in order: the observable effect of a resolution.\<close>

datatype call =
    CallPullRequestsListChanges string int
  | CallGitListChanges string string
  | CallContentsFind string string string

fun fetchedPaths :: "call list \<Rightarrow> string list" where
  "fetchedPaths [] = []"
| "fetchedPaths (CallContentsFind slug file ref # cs) = file # fetchedPaths cs"
| "fetchedPaths (c # cs) = fetchedPaths cs"

section \<open>The change-set resolver\<close>

text \<open>
  \<open>getScmChanges\<close> (plugin.go, lines 118 to 165). The result \<open>Inr None\<close> is the return
  \<open>nil, nil\<close>; \<open>Inr (Some files)\<close> is a non-empty list. The local \<open>changedFiles\<close> is a
  list: the nil slice and the empty slice \<open>[]string{}\<close> both have length 0, which is all
  the code asks of them. The reference of a pull request starts with \<open>refs/pull/\<close>, so
  \<open>strings.Split(ref, "/")\<close> has an element 2.
\<close>

definition returnChanges :: "string list \<Rightarrow> error + string list option" where
  "returnChanges changedFiles =
     (if 0 < length changedFiles then Inr (Some changedFiles) else Inr None)"

definition getScmChanges :: "plugin \<Rightarrow> request \<Rightarrow> (error + string list option) \<times> call list" where
  "getScmChanges p req =
     (if Build_Trigger (Build req) = ''@cron'' then (returnChanges [], [])
      else if HasPrefix (Build_Ref (Build req)) ''refs/pull/'' then
        (case Atoi (Split (Build_Ref (Build req)) CHR ''/'' ! 2) of
           Inl err \<Rightarrow> (Inl err, [])
         | Inr pullRequestID \<Rightarrow>
             (case PullRequests_ListChanges (Client req) (Repo_Slug (Repo req)) pullRequestID of
                Inl err \<Rightarrow> (Inl err, [CallPullRequestsListChanges (Repo_Slug (Repo req)) pullRequestID])
              | Inr files \<Rightarrow>
                  (returnChanges files,
                   [CallPullRequestsListChanges (Repo_Slug (Repo req)) pullRequestID])))
      else
        (let before0 = Build_Before (Build req);
             beforeRev = (if before0 = ''0000000000000000000000000000000000000000'' \<or> before0 = []
                          then Build_After (Build req) @ ''~1'' else before0)
         in (case Git_ListChanges (Client req) (Repo_Slug (Repo req)) (Build_After (Build req)) of
               Inl err \<Rightarrow> (Inl err, [CallGitListChanges (Repo_Slug (Repo req)) (Build_After (Build req))])
             | Inr changes \<Rightarrow>
                 (returnChanges changes,
                  [CallGitListChanges (Repo_Slug (Repo req)) (Build_After (Build req))]))))"

section \<open>Fetch and validate\<close>

text \<open>\<open>getScmFile\<close> (plugin.go, lines 168 to 179).\<close>

definition getScmFile :: "plugin \<Rightarrow> request \<Rightarrow> string \<Rightarrow> (error + string) \<times> call list" where
  "getScmFile p req file =
     (let found = Contents_Find (Client req) (Repo_Slug (Repo req)) file (Build_After (Build req));
          data = fst found;
          err = (if data = None then Some (NotAFile file) else snd found)
      in (case err of
            Some e \<Rightarrow> Inl e
          | None \<Rightarrow> (case data of Some d \<Rightarrow> Inr d | None \<Rightarrow> Inl (NotAFile file)),
          [CallContentsFind (Repo_Slug (Repo req)) file (Build_After (Build req))]))"

text \<open>
  \<open>getScmDroneConfig\<close> (plugin.go, lines 182 to 203) returns the triple
  \<open>(configData, critical, err)\<close>. \<open>yaml.Unmarshal\<close> into a \<open>droneConfig\<close> is a library
  call and a parameter here: it gives an error, or the \<open>name\<close> and \<open>kind\<close> of the
  document (empty when the document has none). Where \<open>name\<close> or \<open>kind\<close> is empty the
  code returns \<open>"", true, err\<close> with the \<open>err\<close> of the successful \<open>Unmarshal\<close>, which is
  nil.
\<close>

definition getScmDroneConfig ::
  "(string \<Rightarrow> error + droneConfig) \<Rightarrow> plugin \<Rightarrow> request \<Rightarrow> string
     \<Rightarrow> (string \<times> bool \<times> error option) \<times> call list" where
  "getScmDroneConfig yaml_Unmarshal p req file =
     (case getScmFile p req file of
        (Inl err, cs) \<Rightarrow> (([], False, Some err), cs)
      | (Inr fileContent, cs) \<Rightarrow>
          (case yaml_Unmarshal fileContent of
             Inl err \<Rightarrow> (([], True, Some err), cs)
           | Inr dc \<Rightarrow>
               if Name dc = [] \<or> Kind dc = [] then (([], True, None), cs)
               else ((fileContent, False, None), cs)))"

section \<open>The ancestor-path locator\<close>

text \<open>
  \<open>getScmConfigData\<close> (plugin.go, lines 206 to 248). The state of its loops: the text
  merged so far, the \<open>cache\<close> map of the candidate paths already checked, and the calls
  made.
\<close>

record scan =
  configData :: string
  cache :: "string \<rightharpoonup> bool"
  calls :: "call list"

text \<open>
  The inner loop \<open>for !done\<close> over the ancestors of one changed file. It returns the error
  of a critical failure (the \<open>return "", err\<close>) or \<open>None\<close> when the loop ends or breaks,
  with the state. The loop ends because \<open>path.Join(dir, "..")\<close> shortens a rooted path
  down to \<open>/\<close>; for an arbitrary \<open>dir\<close> it need not, so the loop is a partial function
  and its termination on the paths the outer loop passes is a theorem.
\<close>

partial_function (option) ancestorsLoop ::
  "(string \<Rightarrow> error + droneConfig) \<Rightarrow> plugin \<Rightarrow> request \<Rightarrow> bool \<Rightarrow> string \<Rightarrow> scan
     \<Rightarrow> (error option \<times> scan) option" where
  "ancestorsLoop yaml_Unmarshal p req done dir st =
     (if done then Some (None, st)
      else
        (let done1 = (dir = ''/'');
             dir1 = path_Join [dir, ''..''];
             file = path_Join [dir1, Repo_Config (Repo req)]
         in if cache st file \<noteq> None then ancestorsLoop yaml_Unmarshal p req done1 dir1 st
            else
              (let st1 = st\<lparr>cache := (cache st)(file \<mapsto> True)\<rparr>;
                   got = getScmDroneConfig yaml_Unmarshal p req file;
                   fileContent = fst (fst got);
                   critical = fst (snd (fst got));
                   err = snd (snd (fst got));
                   st2 = st1\<lparr>calls := calls st1 @ snd got\<rparr>
               in (case err of
                     Some e \<Rightarrow>
                       if critical then Some (Some e, st2)
                       else ancestorsLoop yaml_Unmarshal p req done1 dir1 st2
                   | None \<Rightarrow>
                       (let st3 = st2\<lparr>configData := droneConfigAppend (configData st2) [fileContent]\<rparr>
                        in if \<not> concat p then Some (None, st3)
                           else ancestorsLoop yaml_Unmarshal p req done1 dir1 st3)))))"

declare ancestorsLoop.simps [code]

text \<open>The outer loop over the changed files.\<close>

fun changedFilesLoop ::
  "(string \<Rightarrow> error + droneConfig) \<Rightarrow> plugin \<Rightarrow> request \<Rightarrow> string list \<Rightarrow> scan
     \<Rightarrow> (error option \<times> scan) option" where
  "changedFilesLoop yaml_Unmarshal p req [] st = Some (None, st)"
| "changedFilesLoop yaml_Unmarshal p req (file # files) st =
     (let file1 = (if \<not> HasPrefix file ''/'' then ''/'' @ file else file)
      in (case ancestorsLoop yaml_Unmarshal p req False file1 st of
            None \<Rightarrow> None
          | Some (Some e, st1) \<Rightarrow> Some (Some e, st1)
          | Some (None, st1) \<Rightarrow> changedFilesLoop yaml_Unmarshal p req files st1))"

definition getScmConfigData ::
  "(string \<Rightarrow> error + droneConfig) \<Rightarrow> plugin \<Rightarrow> request \<Rightarrow> string list
     \<Rightarrow> ((error + string) \<times> call list) option" where
  "getScmConfigData yaml_Unmarshal p req changedFiles =
     (case changedFilesLoop yaml_Unmarshal p req changedFiles
             \<lparr>configData = [], cache = Map.empty, calls = []\<rparr> of
        None \<Rightarrow> None
      | Some (Some e, st) \<Rightarrow> Some (Inl e, calls st)
      | Some (None, st) \<Rightarrow> Some (Inr (configData st), calls st))"

section \<open>The directory-tree scanner\<close>

text \<open>
  \<open>getAllConfigData\<close> (plugin.go, lines 251 to 289). The loop over the directory entries
  is commented out in the source; what runs is the listing call, the depth check and the
  return of \<open>errors.New(string(ls.Data))\<close>.
\<close>

definition getAllConfigData ::
  "plugin \<Rightarrow> request \<Rightarrow> string \<Rightarrow> int \<Rightarrow> (error + string) \<times> call list" where
  "getAllConfigData p req dir depth =
     (let found = Contents_Find (Client req) (Repo_Slug (Repo req)) dir (Build_After (Build req));
          cs = [CallContentsFind (Repo_Slug (Repo req)) dir (Build_After (Build req))]
      in (case snd found of
            Some err \<Rightarrow> (Inl err, cs)
          | None \<Rightarrow>
              if maxDepth p < depth then (Inr [], cs)
              else (case fst found of
                      None \<Rightarrow> (Inl NilDereference, cs)
                    | Some data \<Rightarrow> (Inl (ListingAsError data), cs))))"

section \<open>The entry point\<close>

text \<open>
  \<open>Find\<close> (plugin.go, lines 58 to 115). The two constructors of the GitHub driver of go-scm
  are parameters; the result is the text of the \<open>drone.Config\<close> or the error, with the
  calls made on the client.
\<close>

record github =
  NewDefault :: client
  New :: "string \<Rightarrow> error + client"

definition Find ::
  "(string \<Rightarrow> error + droneConfig) \<Rightarrow> github \<Rightarrow> plugin \<Rightarrow> config_Request
     \<Rightarrow> ((error + string) \<times> call list) option" where
  "Find yaml_Unmarshal gh p droneRequest =
     (case (if server p = [] then Inr (NewDefault gh) else New gh (server p)) of
        Inl err \<Rightarrow> Some (Inl err, [])
      | Inr cl \<Rightarrow>
          (let req = \<lparr>Build = Build droneRequest, Repo = Repo droneRequest, Client = cl\<rparr>
           in (case getScmChanges p req of
                 (Inl err, cs) \<Rightarrow> Some (Inl err, cs)
               | (Inr changedFiles, cs) \<Rightarrow>
                   (case (case changedFiles of
                            Some files \<Rightarrow> getScmConfigData yaml_Unmarshal p req files
                          | None \<Rightarrow>
                              if Build_Trigger (Build req) = ''@cron''
                                then Some (getAllConfigData p req ''/'' 0)
                              else if fallback p then Some (getAllConfigData p req ''/'' 0)
                              else Some (Inr [], [])) of
                      None \<Rightarrow> None
                    | Some (Inl err, cs1) \<Rightarrow> Some (Inl err, cs @ cs1)
                    | Some (Inr found, cs1) \<Rightarrow>
                        if found = [] then Some (Inl DidNotFind, cs @ cs1)
                        else Some (Inr (cleanup found), cs @ cs1)))))"

section \<open>Notions used in the statements and proofs\<close>

text \<open>
  \<open>runsIsolated afterDash s\<close> follows the scan of \<open>dedupRegex_ReplaceAll\<close> over \<open>s\<close>:
  wherever the pattern matches (a run of two or more separators, which the pass
  collapses), the character before the match is no dash (\<open>afterDash\<close> tells whether the
  character before \<open>s\<close> is one) and the text after the match does not start with a dash.
\<close>

function runsIsolated :: "bool \<Rightarrow> string \<Rightarrow> bool" where
  "runsIsolated afterDash s =
     (if s = [] then True
      else if 2 \<le> fst (dedupRegex_reps s)
        then \<not> afterDash \<and> \<not> prefix ''-'' (snd (dedupRegex_reps s))
             \<and> runsIsolated False (snd (dedupRegex_reps s))
        else runsIsolated (hd s = CHR ''-'') (tl s))"
  by pat_completeness auto
termination
proof (relation "measure (\<lambda>(a, s). length s)")
  show "wf (measure (\<lambda>(a :: bool, s :: string). length s))" by simp
next
  fix afterDash :: bool and s :: string
  assume "s \<noteq> []" "2 \<le> fst (dedupRegex_reps s)"
  then show "((False, snd (dedupRegex_reps s)), (afterDash, s)) \<in> measure (\<lambda>(a, s). length s)"
    using dedupRegex_reps_length [of s] by simp
next
  fix afterDash :: bool and s :: string
  assume "s \<noteq> []"
  then show "((hd s = CHR ''-'', tl s), (afterDash, s)) \<in> measure (\<lambda>(a, s). length s)"
    by (cases s) simp_all
qed

declare runsIsolated.simps [simp del]

text \<open>\<open>noMatch s\<close>: the pattern of \<open>dedupRegex\<close> matches at no position of \<open>s\<close>.\<close>

fun noMatch :: "string \<Rightarrow> bool" where
  "noMatch [] = True"
| "noMatch (c # cs) = (fst (dedupRegex_reps (c # cs)) < 2 \<and> noMatch cs)"

text \<open>
  A plain path element: not empty, not \<open>.\<close> or \<open>..\<close>, without a slash. \<open>elems d\<close> are
  the elements \<open>path.Clean\<close> keeps of a rooted path \<open>d\<close>, and \<open>climb d\<close> bounds the
  iterations the ancestors loop still makes from \<open>d\<close>.
\<close>

definition plainName :: "string \<Rightarrow> bool" where
  "plainName c \<longleftrightarrow> c \<noteq> [] \<and> c \<noteq> ''.'' \<and> c \<noteq> ''..'' \<and> CHR ''/'' \<notin> set c"

definition elems :: "string \<Rightarrow> string list" where
  "elems d = cleanParts True [] (Split d CHR ''/'')"

definition climb :: "string \<Rightarrow> nat" where
  "climb d = (if d = ''/'' then 0 else Suc (length (elems d)))"

text \<open>
  The invariant of the loops of \<open>getScmConfigData\<close>: the paths fetched so far are distinct
  and all in the \<open>cache\<close>.
\<close>

definition scanInv :: "scan \<Rightarrow> bool" where
  "scanInv st \<longleftrightarrow>
     distinct (fetchedPaths (calls st)) \<and> set (fetchedPaths (calls st)) \<subseteq> dom (cache st)"


section \<open>A concrete repository for the examples\<close>

text \<open>
  \<open>exampleUnmarshal\<close> is what \<open>yaml.Unmarshal\<close> gives on the documents of the
  examples: two complete ones, one without a \<open>name\<close>, and a parse error on the text
  \<open>kind: [\<close> (no other text is parsed in the examples). The client serves the files of
  \<open>tree\<close> and reports every other path as not found; both change listings return
  \<open>changes\<close>.
\<close>

definition exampleUnmarshal :: "string \<Rightarrow> error + droneConfig" where
  "exampleUnmarshal s =
     (if s = ''kind: pipeline\<newline>name: ab\<newline>'' then Inr \<lparr>Name = ''ab'', Kind = ''pipeline''\<rparr>
      else if s = ''kind: pipeline\<newline>name: a\<newline>'' then Inr \<lparr>Name = ''a'', Kind = ''pipeline''\<rparr>
      else if s = ''kind: pipeline\<newline>'' then Inr \<lparr>Name = [], Kind = ''pipeline''\<rparr>
      else Inl (YamlError s))"

definition exampleClient :: "(string \<times> string) list \<Rightarrow> string list \<Rightarrow> client" where
  "exampleClient tree changes =
     \<lparr>PullRequests_ListChanges = (\<lambda>slug n. Inr changes),
      Git_ListChanges = (\<lambda>slug ref. Inr changes),
      Contents_Find = (\<lambda>slug file ref.
         case map_of tree file of
           Some d \<Rightarrow> (Some d, None)
         | None \<Rightarrow> (None, Some (ScmError ''Not Found'')))\<rparr>"

definition exampleGithub :: "(string \<times> string) list \<Rightarrow> string list \<Rightarrow> github" where
  "exampleGithub tree changes =
     \<lparr>NewDefault = exampleClient tree changes, New = (\<lambda>url. Inr (exampleClient tree changes))\<rparr>"

definition exampleEvent :: "string \<Rightarrow> string \<Rightarrow> config_Request" where
  "exampleEvent trigger beforeRev =
     \<lparr>Build = \<lparr>Build_Trigger = trigger, Build_Ref = ''refs/heads/master'', Build_Before = beforeRev, Build_After = ''2222''\<rparr>,
      Repo = \<lparr>Repo_Slug = ''octo/mono'', Repo_Config = ''.pipeline.yml''\<rparr>\<rparr>"

definition exampleRequest ::
  "(string \<times> string) list \<Rightarrow> string list \<Rightarrow> string \<Rightarrow> string \<Rightarrow> request" where
  "exampleRequest tree changes trigger beforeRev =
     \<lparr>Build = Build (exampleEvent trigger beforeRev), Repo = Repo (exampleEvent trigger beforeRev),
      Client = exampleClient tree changes\<rparr>"

definition examplePlugin :: "bool \<Rightarrow> bool \<Rightarrow> plugin" where
  "examplePlugin c f = \<lparr>server = [], token = ''t'', concat = c, fallback = f, maxDepth = 2\<rparr>"

definition treeAB :: "(string \<times> string) list" where
  "treeAB = [(''/a/b/.pipeline.yml'', ''kind: pipeline\<newline>name: ab\<newline>''),
             (''/a/.pipeline.yml'', ''kind: pipeline\<newline>name: a\<newline>'')]"

definition treeBroken :: "(string \<times> string) list" where
  "treeBroken = [(''/a/.pipeline.yml'', ''kind: pipeline\<newline>''),
                 (''/.pipeline.yml'', ''kind: pipeline\<newline>name: a\<newline>'')]"

definition treeUnparsable :: "(string \<times> string) list" where
  "treeUnparsable = [(''/a/.pipeline.yml'', ''kind: [''),
                     (''/.pipeline.yml'', ''kind: pipeline\<newline>name: a\<newline>'')]"

definition treeListing :: "(string \<times> string) list" where
  "treeListing = [(''/'', ''a .pipeline.yml''),
                  (''/.pipeline.yml'', ''kind: pipeline\<newline>name: a\<newline>'')]"



section \<open>Lemmas: unfolding rules\<close>

lemma strip_Nil: "strings_ReplaceAll [] ''...'' [] = []"
  by (subst strings_ReplaceAll.simps) simp

lemma strip_dots:
  "strings_ReplaceAll (''...'' @ r) ''...'' [] = strings_ReplaceAll r ''...'' []"
  by (subst strings_ReplaceAll.simps) simp

lemma strip_other:
  "\<not> prefix ''...'' (c # cs) \<Longrightarrow>
   strings_ReplaceAll (c # cs) ''...'' [] = c # strings_ReplaceAll cs ''...'' []"
  by (subst strings_ReplaceAll.simps) (simp del: Cons_prefix_Cons)

lemma reps_no: "\<not> prefix ''---'' s \<Longrightarrow> dedupRegex_reps s = (0, s)"
  by (subst dedupRegex_reps.simps) simp

lemma reps_yes:
  "prefix ''---'' s \<Longrightarrow>
   dedupRegex_reps s = (Suc (fst (dedupRegex_reps (dropWhile isSpace (drop 3 s)))),
                        snd (dedupRegex_reps (dropWhile isSpace (drop 3 s))))"
  by (subst dedupRegex_reps.simps) (simp add: split_beta)

lemma dedup_Nil: "dedupRegex_ReplaceAll [] = []"
  by (subst dedupRegex_ReplaceAll.simps) simp

lemma dedup_match:
  "2 \<le> fst (dedupRegex_reps s) \<Longrightarrow>
   dedupRegex_ReplaceAll s = ''---'' @ dedupRegex_ReplaceAll (snd (dedupRegex_reps s))"
proof -
  assume m: "2 \<le> fst (dedupRegex_reps s)"
  have "s \<noteq> []"
  proof
    assume "s = []"
    then have "dedupRegex_reps s = (0, [])" by (simp add: reps_no)
    with m show False by simp
  qed
  with m show ?thesis by (subst dedupRegex_ReplaceAll.simps) simp
qed

lemma dedup_other:
  "\<not> 2 \<le> fst (dedupRegex_reps (c # cs)) \<Longrightarrow>
   dedupRegex_ReplaceAll (c # cs) = c # dedupRegex_ReplaceAll cs"
  by (subst dedupRegex_ReplaceAll.simps) simp

section \<open>Lemmas: stripping the end-of-document markers\<close>

lemma strip_prefix_dots:
  "\<not> prefix ''...'' (strings_ReplaceAll s ''...'' [])
   \<and> (prefix ''..'' (strings_ReplaceAll s ''...'' []) \<longrightarrow> prefix ''..'' s)
   \<and> (prefix ''.'' (strings_ReplaceAll s ''...'' []) \<longrightarrow> prefix ''.'' s)"
proof (induction s "''...''" "[] :: string" rule: strings_ReplaceAll.induct)
  case (1 s)
  show ?case
  proof (cases "s = []")
    case True
    then show ?thesis by (simp add: strip_Nil)
  next
    case ne: False
    show ?thesis
    proof (cases "prefix ''...'' s")
      case True
      then obtain r where r: "s = ''...'' @ r" by (auto simp: prefix_def)
      with ne True 1(1) have ih: "\<not> prefix ''...'' (strings_ReplaceAll r ''...'' [])" by simp
      have eq: "strings_ReplaceAll s ''...'' [] = strings_ReplaceAll r ''...'' []"
        unfolding r by (rule strip_dots)
      from ih r show ?thesis unfolding eq by simp
    next
      case False
      from ne obtain c cs where s: "s = c # cs" by (cases s) auto
      from 1(2) ne False s have ih:
        "\<not> prefix ''...'' (strings_ReplaceAll cs ''...'' [])
         \<and> (prefix ''..'' (strings_ReplaceAll cs ''...'' []) \<longrightarrow> prefix ''..'' cs)
         \<and> (prefix ''.'' (strings_ReplaceAll cs ''...'' []) \<longrightarrow> prefix ''.'' cs)" by simp
      from False s have eq: "strings_ReplaceAll s ''...'' [] = c # strings_ReplaceAll cs ''...'' []"
        by (simp add: strip_other)
      from ih False s show ?thesis unfolding eq by auto
    qed
  qed
qed

lemma strip_no_dots: "\<not> sublist ''...'' (strings_ReplaceAll s ''...'' [])"
proof (induction s "''...''" "[] :: string" rule: strings_ReplaceAll.induct)
  case (1 s)
  show ?case
  proof (cases "s = []")
    case True
    then show ?thesis by (simp add: strip_Nil)
  next
    case ne: False
    show ?thesis
    proof (cases "prefix ''...'' s")
      case True
      then obtain r where r: "s = ''...'' @ r" by (auto simp: prefix_def)
      with ne True 1(1) have ih: "\<not> sublist ''...'' (strings_ReplaceAll r ''...'' [])" by simp
      have eq: "strings_ReplaceAll s ''...'' [] = strings_ReplaceAll r ''...'' []"
        unfolding r by (rule strip_dots)
      from ih show ?thesis unfolding eq .
    next
      case False
      from ne obtain c cs where s: "s = c # cs" by (cases s) auto
      from 1(2) ne False s have ih: "\<not> sublist ''...'' (strings_ReplaceAll cs ''...'' [])" by simp
      from False s have eq: "strings_ReplaceAll s ''...'' [] = c # strings_ReplaceAll cs ''...'' []"
        by (simp add: strip_other)
      have "\<not> prefix ''...'' (strings_ReplaceAll s ''...'' [])"
        using strip_prefix_dots [of s] by simp
      with ih show ?thesis unfolding eq by (simp add: sublist_Cons_right)
    qed
  qed
qed

lemma strip_keeps_others:
  "filter (\<lambda>c. c \<noteq> CHR ''.'') (strings_ReplaceAll s ''...'' []) = filter (\<lambda>c. c \<noteq> CHR ''.'') s"
proof (induction s "''...''" "[] :: string" rule: strings_ReplaceAll.induct)
  case (1 s)
  show ?case
  proof (cases "s = []")
    case True
    then show ?thesis by (simp add: strip_Nil)
  next
    case ne: False
    show ?thesis
    proof (cases "prefix ''...'' s")
      case True
      then obtain r where r: "s = ''...'' @ r" by (auto simp: prefix_def)
      with ne True 1(1) have ih: "filter (\<lambda>c. c \<noteq> CHR ''.'') (strings_ReplaceAll r ''...'' [])
          = filter (\<lambda>c. c \<noteq> CHR ''.'') r" by simp
      have eq: "strings_ReplaceAll s ''...'' [] = strings_ReplaceAll r ''...'' []"
        unfolding r by (rule strip_dots)
      from ih r show ?thesis unfolding eq by simp
    next
      case False
      from ne obtain c cs where s: "s = c # cs" by (cases s) auto
      with 1(2) ne False show ?thesis by (simp add: strip_other)
    qed
  qed
qed

lemma strip_id: "\<not> sublist ''...'' t \<Longrightarrow> strings_ReplaceAll t ''...'' [] = t"
proof (induction t)
  case Nil
  show ?case by (simp add: strip_Nil)
next
  case (Cons c cs)
  then have "\<not> prefix ''...'' (c # cs)" and "\<not> sublist ''...'' cs"
    by (simp_all add: sublist_Cons_right)
  with Cons.IH show ?case by (simp add: strip_other)
qed

section \<open>Lemmas: the separator collapse creates no marker\<close>

lemma reps_suffix: "suffix (snd (dedupRegex_reps s)) s"
proof (induction s rule: dedupRegex_reps.induct)
  case (1 s)
  show ?case
  proof (cases "prefix ''---'' s")
    case True
    have "suffix (dropWhile isSpace (drop 3 s)) (drop 3 s)" by (rule suffix_dropWhile)
    moreover have "suffix (drop 3 s) s" by (rule suffix_drop)
    ultimately have "suffix (dropWhile isSpace (drop 3 s)) s" by (rule suffix_order.trans)
    with 1 [OF True] have "suffix (snd (dedupRegex_reps (dropWhile isSpace (drop 3 s)))) s"
      by (meson suffix_order.trans)
    with True show ?thesis by (simp add: reps_yes)
  next
    case False
    then show ?thesis by (simp add: reps_no)
  qed
qed

lemma dedup_prefix_dots:
  "(prefix ''...'' (dedupRegex_ReplaceAll s) \<longrightarrow> prefix ''...'' s)
   \<and> (prefix ''..'' (dedupRegex_ReplaceAll s) \<longrightarrow> prefix ''..'' s)
   \<and> (prefix ''.'' (dedupRegex_ReplaceAll s) \<longrightarrow> prefix ''.'' s)"
proof (induction s rule: dedupRegex_ReplaceAll.induct)
  case (1 s)
  show ?case
  proof (cases "s = []")
    case True
    then show ?thesis by (simp add: dedup_Nil)
  next
    case ne: False
    show ?thesis
    proof (cases "2 \<le> fst (dedupRegex_reps s)")
      case True
      then show ?thesis by (simp add: dedup_match)
    next
      case False
      from ne obtain c cs where s: "s = c # cs" by (cases s) auto
      from 1(2) ne False s have ih:
        "(prefix ''...'' (dedupRegex_ReplaceAll cs) \<longrightarrow> prefix ''...'' cs)
         \<and> (prefix ''..'' (dedupRegex_ReplaceAll cs) \<longrightarrow> prefix ''..'' cs)
         \<and> (prefix ''.'' (dedupRegex_ReplaceAll cs) \<longrightarrow> prefix ''.'' cs)" by simp
      from False s have eq: "dedupRegex_ReplaceAll s = c # dedupRegex_ReplaceAll cs"
        by (simp add: dedup_other)
      from ih s show ?thesis unfolding eq by auto
    qed
  qed
qed

lemma dedup_no_dots:
  "\<not> sublist ''...'' s \<Longrightarrow> \<not> sublist ''...'' (dedupRegex_ReplaceAll s)"
proof (induction s rule: dedupRegex_ReplaceAll.induct)
  case (1 s)
  show ?case
  proof (cases "s = []")
    case True
    then show ?thesis by (simp add: dedup_Nil)
  next
    case ne: False
    show ?thesis
    proof (cases "2 \<le> fst (dedupRegex_reps s)")
      case True
      have "sublist (snd (dedupRegex_reps s)) s" using reps_suffix [of s] by (rule suffix_imp_sublist)
      with 1(3) have "\<not> sublist ''...'' (snd (dedupRegex_reps s))"
        by (meson sublist_order.order.trans)
      with 1(1) ne True have "\<not> sublist ''...'' (dedupRegex_ReplaceAll (snd (dedupRegex_reps s)))"
        by simp
      with True show ?thesis by (simp add: dedup_match sublist_Cons_right)
    next
      case False
      from ne obtain c cs where s: "s = c # cs" by (cases s) auto
      from 1(3) s have np: "\<not> prefix ''...'' s" and ns: "\<not> sublist ''...'' cs"
        by (simp_all add: sublist_Cons_right)
      from 1(2) ne False s ns have ih: "\<not> sublist ''...'' (dedupRegex_ReplaceAll cs)" by simp
      from False s have eq: "dedupRegex_ReplaceAll s = c # dedupRegex_ReplaceAll cs"
        by (simp add: dedup_other)
      from np have "\<not> prefix ''...'' (dedupRegex_ReplaceAll s)"
        using dedup_prefix_dots [of s] by blast
      with ih show ?thesis unfolding eq by (simp add: sublist_Cons_right)
    qed
  qed
qed

lemma cleanup_no_dots: "\<not> sublist ''...'' (cleanup s)"
  unfolding cleanup_def by (rule dedup_no_dots) (rule strip_no_dots)

lemma strip_cleanup: "strings_ReplaceAll (cleanup s) ''...'' [] = cleanup s"
  by (rule strip_id) (rule cleanup_no_dots)

section \<open>Lemmas: the separator collapse where the collapsed runs touch no dash\<close>

lemma isSpace_dash [simp]: "\<not> isSpace CHR ''-''"
  by (simp add: isSpace_def)

lemma reps_rest:
  "\<not> prefix ''---'' (snd (dedupRegex_reps s))
   \<and> (0 < fst (dedupRegex_reps s) \<longrightarrow>
        dropWhile isSpace (snd (dedupRegex_reps s)) = snd (dedupRegex_reps s))"
proof (induction s rule: dedupRegex_reps.induct)
  case (1 s)
  show ?case
  proof (cases "prefix ''---'' s")
    case True
    let ?x = "dropWhile isSpace (drop 3 s)"
    note ih = 1 [OF True]
    show ?thesis
    proof (cases "prefix ''---'' ?x")
      case px: True
      then have "0 < fst (dedupRegex_reps ?x)" by (simp add: reps_yes)
      with ih True show ?thesis by (simp add: reps_yes)
    next
      case False
      then have "dedupRegex_reps ?x = (0, ?x)" by (rule reps_no)
      with False True show ?thesis by (simp add: reps_yes)
    qed
  next
    case False
    then show ?thesis by (simp add: reps_no)
  qed
qed

lemma noMatch_fixed: "noMatch t \<Longrightarrow> dedupRegex_ReplaceAll t = t"
  by (induction t) (simp_all add: dedup_Nil dedup_other)

lemma reps_pos: "0 < fst (dedupRegex_reps s) \<longleftrightarrow> prefix ''---'' s"
  by (cases "prefix ''---'' s") (simp_all add: reps_yes reps_no)

lemma isolated_match:
  "2 \<le> fst (dedupRegex_reps s) \<Longrightarrow>
   runsIsolated a s \<longleftrightarrow> \<not> a \<and> \<not> prefix ''-'' (snd (dedupRegex_reps s))
      \<and> runsIsolated False (snd (dedupRegex_reps s))"
proof -
  assume m: "2 \<le> fst (dedupRegex_reps s)"
  then have "s \<noteq> []" by (auto simp: reps_no)
  with m show ?thesis by (subst runsIsolated.simps) simp
qed

lemma isolated_other:
  "\<not> 2 \<le> fst (dedupRegex_reps (c # cs)) \<Longrightarrow>
   runsIsolated a (c # cs) \<longleftrightarrow> runsIsolated (c = CHR ''-'') cs"
  by (subst runsIsolated.simps) simp

lemma isolated_after_dash:
  assumes "runsIsolated True (c # cs)"
  shows "dedupRegex_ReplaceAll (c # cs) = c # dedupRegex_ReplaceAll cs
     \<and> runsIsolated (c = CHR ''-'') cs"
proof -
  have n: "\<not> 2 \<le> fst (dedupRegex_reps (c # cs))"
  proof
    assume "2 \<le> fst (dedupRegex_reps (c # cs))"
    from isolated_match [OF this, of True] assms show False by simp
  qed
  with assms show ?thesis by (simp add: dedup_other isolated_other)
qed

lemma isolated_single_sep:
  assumes "runsIsolated a (''---'' @ r)" and "\<not> 2 \<le> fst (dedupRegex_reps (''---'' @ r))"
  shows "dedupRegex_ReplaceAll (''---'' @ r) = ''---'' @ dedupRegex_ReplaceAll r \<and> runsIsolated True r"
proof -
  from assms have 1: "runsIsolated True (''--'' @ r)" by (simp add: isolated_other)
  from assms(2) have e1: "dedupRegex_ReplaceAll (''---'' @ r) = CHR ''-'' # dedupRegex_ReplaceAll (''--'' @ r)"
    by (simp add: dedup_other)
  from 1 have "runsIsolated True (CHR ''-'' # (''-'' @ r))" by simp
  from isolated_after_dash [OF this]
  have e2: "dedupRegex_ReplaceAll (''--'' @ r) = CHR ''-'' # dedupRegex_ReplaceAll (''-'' @ r)"
    and 2: "runsIsolated True (''-'' @ r)" by simp_all
  from 2 have "runsIsolated True (CHR ''-'' # r)" by simp
  from isolated_after_dash [OF this]
  have e3: "dedupRegex_ReplaceAll (''-'' @ r) = CHR ''-'' # dedupRegex_ReplaceAll r"
    and 3: "runsIsolated True r" by simp_all
  from e1 e2 e3 3 show ?thesis by simp
qed

lemma isolated_sep_kept:
  assumes "runsIsolated a x" and "prefix ''---'' (dedupRegex_ReplaceAll x)"
  shows "prefix ''---'' x"
proof (cases "2 \<le> fst (dedupRegex_reps x)")
  case True
  then have "0 < fst (dedupRegex_reps x)" by simp
  then show ?thesis by (simp only: reps_pos)
next
  case False
  from assms(2) obtain c cs where x: "x = c # cs" by (cases x) (auto simp: dedup_Nil)
  with False assms have c: "c = CHR ''-''" and p1: "prefix ''--'' (dedupRegex_ReplaceAll cs)"
    and i1: "runsIsolated True cs" by (auto simp: dedup_other isolated_other)
  from p1 obtain c2 cs2 where cs: "cs = c2 # cs2" by (cases cs) (auto simp: dedup_Nil)
  from isolated_after_dash [OF i1 [unfolded cs]] p1 cs
  have c2: "c2 = CHR ''-''" and p2: "prefix ''-'' (dedupRegex_ReplaceAll cs2)"
    and i2: "runsIsolated True cs2" by auto
  from p2 obtain c3 cs3 where cs2: "cs2 = c3 # cs3" by (cases cs2) (auto simp: dedup_Nil)
  from isolated_after_dash [OF i2 [unfolded cs2]] p2 cs2
  have c3: "c3 = CHR ''-''" by auto
  from x cs cs2 c c2 c3 show ?thesis by simp
qed

lemma isolated_gap_kept:
  "runsIsolated a x \<Longrightarrow> prefix ''---'' (dropWhile isSpace (dedupRegex_ReplaceAll x)) \<Longrightarrow>
   prefix ''---'' (dropWhile isSpace x)"
proof (induction x arbitrary: a)
  case Nil
  then show ?case by (simp add: dedup_Nil)
next
  case (Cons c cs)
  show ?case
  proof (cases "isSpace c")
    case True
    then have c: "c \<noteq> CHR ''-''" by auto
    then have "\<not> 2 \<le> fst (dedupRegex_reps (c # cs))" by (simp add: reps_no)
    with Cons.prems c True have "runsIsolated False cs"
      and "prefix ''---'' (dropWhile isSpace (dedupRegex_ReplaceAll cs))"
      by (simp_all add: isolated_other dedup_other)
    with Cons.IH True show ?thesis by simp
  next
    case False
    have "dropWhile isSpace (dedupRegex_ReplaceAll (c # cs)) = dedupRegex_ReplaceAll (c # cs)"
    proof (cases "2 \<le> fst (dedupRegex_reps (c # cs))")
      case True
      then show ?thesis by (simp add: dedup_match)
    next
      case nm: False
      with False show ?thesis by (simp add: dedup_other)
    qed
    with Cons.prems have "prefix ''---'' (dedupRegex_ReplaceAll (c # cs))" by simp
    with Cons.prems(1) have "prefix ''---'' (c # cs)" by (rule isolated_sep_kept)
    moreover have "dropWhile isSpace (c # cs) = c # cs" using False by simp
    ultimately show ?thesis by (simp only:)
  qed
qed

lemma dedup_head_nondash:
  assumes "\<not> prefix ''-'' r"
  shows "\<not> prefix ''-'' (dedupRegex_ReplaceAll r)"
proof (cases r)
  case Nil
  then show ?thesis by (simp add: dedup_Nil)
next
  case (Cons c cs)
  with assms have "c \<noteq> CHR ''-''" by simp
  with Cons show ?thesis by (simp add: dedup_other reps_no)
qed

lemma isolated_noMatch: "runsIsolated a u \<Longrightarrow> noMatch (dedupRegex_ReplaceAll u)"
proof (induction "length u" arbitrary: u a rule: less_induct)
  case less
  show ?case
  proof (cases u)
    case Nil
    then show ?thesis by (simp add: dedup_Nil)
  next
    case (Cons c cs)
    show ?thesis
    proof (cases "2 \<le> fst (dedupRegex_reps u)")
      case True
      let ?r = "snd (dedupRegex_reps u)"
      let ?t = "dedupRegex_ReplaceAll ?r"
      from isolated_match [OF True, of a] less.prems
      have nd: "\<not> prefix ''-'' ?r" and i: "runsIsolated False ?r" by simp_all
      have "length ?r < length u" using dedupRegex_reps_length [of u] True by simp
      with less.hyps i have nm: "noMatch ?t" by blast
      from True have "0 < fst (dedupRegex_reps u)" by simp
      with reps_rest [of u] have rest: "\<not> prefix ''---'' ?r" "dropWhile isSpace ?r = ?r" by simp_all
      have g: "\<not> prefix ''---'' (dropWhile isSpace ?t)"
      proof
        assume "prefix ''---'' (dropWhile isSpace ?t)"
        with i have "prefix ''---'' (dropWhile isSpace ?r)" by (rule isolated_gap_kept)
        with rest show False by simp
      qed
      from nd have h: "\<not> prefix ''-'' ?t" by (rule dedup_head_nondash)
      from g have a0: "fst (dedupRegex_reps (''---'' @ ?t)) < 2" by (simp add: reps_yes reps_no)
      from h have a1: "fst (dedupRegex_reps (''--'' @ ?t)) < 2" by (cases ?t) (simp_all add: reps_no)
      from h have a2: "fst (dedupRegex_reps (''-'' @ ?t)) < 2" by (cases ?t) (simp_all add: reps_no)
      from a0 a1 a2 nm have "noMatch (''---'' @ ?t)" by simp
      with True show ?thesis by (simp add: dedup_match)
    next
      case False
      with less.prems Cons have i: "runsIsolated (c = CHR ''-'') cs" by (simp add: isolated_other)
      with less.hyps [of cs] Cons have nm: "noMatch (dedupRegex_ReplaceAll cs)" by simp
      from False Cons have eq: "dedupRegex_ReplaceAll u = c # dedupRegex_ReplaceAll cs"
        by (simp add: dedup_other)
      have "fst (dedupRegex_reps (dedupRegex_ReplaceAll u)) < 2"
      proof (rule ccontr)
        assume "\<not> fst (dedupRegex_reps (dedupRegex_ReplaceAll u)) < 2"
        then have m: "2 \<le> fst (dedupRegex_reps (dedupRegex_ReplaceAll u))" by simp
        then have "0 < fst (dedupRegex_reps (dedupRegex_ReplaceAll u))" by simp
        then have "prefix ''---'' (dedupRegex_ReplaceAll u)" by (simp only: reps_pos)
        with less.prems have "prefix ''---'' u" by (rule isolated_sep_kept)
        then obtain r where u: "u = ''---'' @ r" by (auto simp: prefix_def)
        from isolated_single_sep [OF less.prems [unfolded u] False [unfolded u]]
        have e: "dedupRegex_ReplaceAll u = ''---'' @ dedupRegex_ReplaceAll r" and ir: "runsIsolated True r"
          unfolding u by simp_all
        from m have "0 < fst (dedupRegex_reps (dropWhile isSpace (dedupRegex_ReplaceAll r)))"
          unfolding e by (simp add: reps_yes)
        then have "prefix ''---'' (dropWhile isSpace (dedupRegex_ReplaceAll r))" by (simp only: reps_pos)
        with ir have "prefix ''---'' (dropWhile isSpace r)" by (rule isolated_gap_kept)
        then have "0 < fst (dedupRegex_reps (dropWhile isSpace r))" by (simp only: reps_pos)
        then have "2 \<le> fst (dedupRegex_reps u)" unfolding u by (simp add: reps_yes)
        with False show False by simp
      qed
      with nm show ?thesis unfolding eq by simp
    qed
  qed
qed

section \<open>Lemmas: appending one fragment\<close>

lemma Trim_blank:
  assumes "\<forall>c\<in>set a. c = CHR '' '' \<or> c = CHR 0x0A"
  shows "Trim a '' \<newline>'' = []"
proof -
  have "\<forall>c\<in>set a. c \<in> set '' \<newline>''" using assms by auto
  then have d: "dropWhile (\<lambda>c. c \<in> set '' \<newline>'') a = []"
    by (simp only: dropWhile_eq_Nil_conv)
  show ?thesis unfolding Trim_def d by simp
qed



section \<open>Lemmas: paths\<close>

lemma Split_nonempty: "Split s sep \<noteq> []"
  by (induction s) (auto split: list.splits)

lemma Split_append_sep: "Split (a @ sep # b) sep = Split a sep @ Split b sep"
proof (induction a)
  case Nil
  show ?case by simp
next
  case (Cons c a)
  obtain y ys where y: "Split a sep = y # ys" using Split_nonempty [of a sep] by (cases "Split a sep") auto
  with Cons show ?case by simp
qed

lemma Split_no_sep: "sep \<notin> set s \<Longrightarrow> Split s sep = [s]"
  by (induction s) auto

lemma Split_parts_no_sep: "c \<in> set (Split s sep) \<Longrightarrow> sep \<notin> set c"
proof (induction s arbitrary: c)
  case Nil
  then show ?case by simp
next
  case (Cons a s)
  obtain y ys where y: "Split s sep = y # ys" using Split_nonempty [of s sep] by (cases "Split s sep") auto
  with Cons show ?case by (auto split: if_splits)
qed

lemma Split_Join:
  "xs \<noteq> [] \<Longrightarrow> \<forall>c\<in>set xs. sep \<notin> set c \<Longrightarrow> Split (Join xs [sep]) sep = xs"
proof (induction xs "[sep]" rule: Join.induct)
  case 1
  then show ?case by simp
next
  case (2 x)
  then show ?case by (simp add: Split_no_sep)
next
  case (3 x y ys)
  then have "Split (Join (y # ys) [sep]) sep = y # ys" by simp
  moreover have "Split x sep = [x]" using 3 by (simp add: Split_no_sep)
  ultimately show ?case by (simp add: Split_append_sep)
qed

lemma cleanParts_append:
  "cleanParts r out (xs @ ys) = cleanParts r (cleanParts r out xs) ys"
  by (induction xs arbitrary: out) auto

lemma cleanParts_plain: "\<forall>c\<in>set xs. plainName c \<Longrightarrow> cleanParts r out xs = out @ xs"
  by (induction xs arbitrary: out) (simp_all add: plainName_def)

lemma cleanParts_rooted_plain:
  "\<forall>c\<in>set out. plainName c \<Longrightarrow> \<forall>c\<in>set parts. CHR ''/'' \<notin> set c \<Longrightarrow>
   \<forall>c\<in>set (cleanParts True out parts). plainName c"
proof (induction parts arbitrary: out)
  case Nil
  then show ?case by simp
next
  case (Cons c cs)
  have b: "\<forall>c\<in>set (butlast out). plainName c" using Cons.prems(1) by (auto dest: in_set_butlastD)
  have a: "c \<noteq> [] \<Longrightarrow> c \<noteq> ''.'' \<Longrightarrow> c \<noteq> ''..'' \<Longrightarrow> \<forall>x\<in>set (out @ [c]). plainName x"
    using Cons.prems by (auto simp: plainName_def)
  from Cons.prems(2) have cs: "\<forall>c\<in>set cs. CHR ''/'' \<notin> set c" by simp
  show ?case
    using Cons.IH [OF Cons.prems(1) cs] Cons.IH [OF b cs] Cons.IH [OF a cs]
    by (simp del: set_append)
qed

lemma elems_plain: "\<forall>c\<in>set (elems d). plainName c"
  unfolding elems_def by (rule cleanParts_rooted_plain) (auto dest: Split_parts_no_sep)

lemma Join_plain_Nil: "\<forall>c\<in>set xs. plainName c \<Longrightarrow> Join xs ''/'' = [] \<longleftrightarrow> xs = []"
  by (induction xs "''/''" rule: Join.induct) (auto simp: plainName_def)

lemma elems_render:
  assumes "\<forall>c\<in>set xs. plainName c"
  shows "elems (CHR ''/'' # Join xs ''/'') = xs"
proof (cases "xs = []")
  case True
  then show ?thesis by (simp add: elems_def)
next
  case False
  have "\<forall>c\<in>set xs. CHR ''/'' \<notin> set c" using assms by (simp add: plainName_def)
  with False have "Split (Join xs [CHR ''/'']) CHR ''/'' = xs" by (rule Split_Join)
  then show ?thesis using assms by (simp add: elems_def cleanParts_plain)
qed

lemma path_Join_parent:
  assumes "d = CHR ''/'' # d'"
  shows "path_Join [d, ''..''] = CHR ''/'' # Join (butlast (elems d)) ''/''"
proof -
  have "Split (d @ CHR ''/'' # ''..'') CHR ''/'' = Split d CHR ''/'' @ [''..'']"
    by (simp add: Split_append_sep Split_no_sep)
  then have "cleanParts True [] (Split (d @ CHR ''/'' # ''..'') CHR ''/'')
      = cleanParts True (elems d) [''..'']"
    by (simp add: cleanParts_append elems_def)
  also have "\<dots> = butlast (elems d)"
  proof (cases "elems d = []")
    case True
    then show ?thesis by simp
  next
    case False
    then have "last (elems d) \<in> set (elems d)" by simp
    with elems_plain have "plainName (last (elems d))" by blast
    then have "last (elems d) \<noteq> ''..''" by (simp add: plainName_def)
    with False show ?thesis by simp
  qed
  finally have "cleanParts True [] (Split (d @ CHR ''/'' # ''..'') CHR ''/'') = butlast (elems d)" .
  with assms show ?thesis by (simp add: path_Join_def path_Clean_def)
qed

lemma climb_parent:
  assumes "d = CHR ''/'' # d'" and "d \<noteq> ''/''"
  shows "climb (path_Join [d, ''..'']) < climb d"
proof -
  let ?xs = "butlast (elems d)"
  have p: "\<forall>c\<in>set ?xs. plainName c" using elems_plain by (auto dest: in_set_butlastD)
  have j: "path_Join [d, ''..''] = CHR ''/'' # Join ?xs ''/''" using assms(1) by (rule path_Join_parent)
  show ?thesis
  proof (cases "?xs = []")
    case True
    with j have "path_Join [d, ''..''] = ''/''" by simp
    with assms(2) show ?thesis by (simp add: climb_def)
  next
    case False
    then have "elems d \<noteq> []" by auto
    then have "length ?xs < length (elems d)" by simp
    moreover have "elems (path_Join [d, ''..'']) = ?xs" unfolding j using p by (rule elems_render)
    ultimately show ?thesis using assms(2) by (simp add: climb_def)
  qed
qed

lemma Split_pull_ref:
  assumes "HasPrefix ref ''refs/pull/''"
  shows "2 < length (Split ref CHR ''/'')"
proof -
  from assms obtain r where "ref = ''refs/pull/'' @ r" by (auto simp: HasPrefix_def prefix_def)
  then have "ref = ''refs'' @ CHR ''/'' # (''pull'' @ CHR ''/'' # r)" by simp
  then have "Split ref CHR ''/'' = [''refs''] @ [''pull''] @ Split r CHR ''/''"
    by (simp only: Split_append_sep) (simp add: Split_no_sep)
  then show ?thesis using Split_nonempty [of r "CHR ''/''"] by (cases "Split r CHR ''/''") auto
qed

section \<open>Lemmas: the ancestors loop\<close>

lemma fetchedPaths_append: "fetchedPaths (xs @ ys) = fetchedPaths xs @ fetchedPaths ys"
  by (induction xs rule: fetchedPaths.induct) simp_all

lemma getScmDroneConfig_calls:
  "snd (getScmDroneConfig y p req file)
     = [CallContentsFind (Repo_Slug (Repo req)) file (Build_After (Build req))]"
  by (simp add: getScmDroneConfig_def getScmFile_def Let_def split: option.splits sum.splits)

lemma ancestorsLoop_done: "ancestorsLoop y p req True d st = Some (None, st)"
  by (subst ancestorsLoop.simps) simp

lemma scanInv_fetch:
  assumes "scanInv st" and "cache st file = None"
  shows "scanInv (st\<lparr>cache := (cache st)(file \<mapsto> True),
                     calls := calls st @ [CallContentsFind slug file ref]\<rparr>)"
  using assms by (auto simp: scanInv_def fetchedPaths_append)






lemma ancestorsLoop_abort:
  "path_Join [d, ''..''] = up \<Longrightarrow> path_Join [up, Repo_Config (Repo req)] = cand \<Longrightarrow>
   cache st cand = None \<Longrightarrow> getScmDroneConfig y p req cand = ((c, True, Some e), cs) \<Longrightarrow>
   ancestorsLoop y p req False d st =
     Some (Some e, st\<lparr>cache := (cache st)(cand \<mapsto> True), calls := calls st @ cs\<rparr>)"
  by (subst ancestorsLoop.simps) (simp add: Let_def)

lemma ancestorsLoop_total:
  "d = CHR ''/'' # d' \<Longrightarrow> scanInv st \<Longrightarrow>
   \<exists>err st'. ancestorsLoop y p req False d st = Some (err, st') \<and> scanInv st'"
proof (induction "climb d" arbitrary: d d' st rule: less_induct)
  case less
  let ?dir1 = "path_Join [d, ''..'']"
  let ?file = "path_Join [?dir1, Repo_Config (Repo req)]"
  let ?got = "getScmDroneConfig y p req ?file"
  let ?st2 = "st\<lparr>cache := (cache st)(?file \<mapsto> True),
                 calls := calls st @ [CallContentsFind (Repo_Slug (Repo req)) ?file (Build_After (Build req))]\<rparr>"
  let ?st3 = "?st2\<lparr>configData := droneConfigAppend (configData ?st2) [fst (fst ?got)]\<rparr>"
  have rec: "\<exists>err st'. ancestorsLoop y p req (d = ''/'') ?dir1 s = Some (err, st') \<and> scanInv st'"
    if "scanInv s" for s
  proof (cases "d = ''/''")
    case True
    with that show ?thesis by (simp add: ancestorsLoop_done)
  next
    case False
    have "climb ?dir1 < climb d" using less.prems(1) False by (rule climb_parent)
    moreover have "?dir1 = CHR ''/'' # Join (butlast (elems d)) ''/''"
      using less.prems(1) by (rule path_Join_parent)
    ultimately show ?thesis using less.hyps that False by simp
  qed
  show ?case
  proof (cases "cache st ?file = None")
    case False
    then have "ancestorsLoop y p req False d st = ancestorsLoop y p req (d = ''/'') ?dir1 st"
      by (subst ancestorsLoop.simps) (simp add: Let_def)
    with rec [OF less.prems(2)] show ?thesis by simp
  next
    case True
    have i2: "scanInv ?st2" using less.prems(2) True by (rule scanInv_fetch)
    then have i3: "scanInv ?st3" by (simp add: scanInv_def)
    show ?thesis
    proof (cases "snd (snd (fst ?got))")
      case None
      show ?thesis
      proof (cases "concat p")
        case c: True
        with True None have "ancestorsLoop y p req False d st
            = ancestorsLoop y p req (d = ''/'') ?dir1 ?st3"
          by (subst ancestorsLoop.simps) (simp add: Let_def getScmDroneConfig_calls)
        with rec [OF i3] show ?thesis by simp
      next
        case c: False
        with True None have "ancestorsLoop y p req False d st = Some (None, ?st3)"
          by (subst ancestorsLoop.simps) (simp add: Let_def getScmDroneConfig_calls)
        with i3 show ?thesis by simp
      qed
    next
      case (Some e)
      show ?thesis
      proof (cases "fst (snd (fst ?got))")
        case c: True
        with True Some have "ancestorsLoop y p req False d st = Some (Some e, ?st2)"
          by (subst ancestorsLoop.simps) (simp add: Let_def getScmDroneConfig_calls)
        with i2 show ?thesis by simp
      next
        case c: False
        with True Some have "ancestorsLoop y p req False d st
            = ancestorsLoop y p req (d = ''/'') ?dir1 ?st2"
          by (subst ancestorsLoop.simps) (simp add: Let_def getScmDroneConfig_calls)
        with rec [OF i2] show ?thesis by simp
      qed
    qed
  qed
qed

lemma changedFilesLoop_total:
  "scanInv st \<Longrightarrow>
   \<exists>err st'. changedFilesLoop y p req files st = Some (err, st') \<and> scanInv st'"
proof (induction files arbitrary: st)
  case Nil
  then show ?case by simp
next
  case (Cons f fs)
  let ?file1 = "if \<not> HasPrefix f ''/'' then ''/'' @ f else f"
  have "\<exists>d'. ?file1 = CHR ''/'' # d'" by (cases f) (auto simp: HasPrefix_def)
  then obtain d' where "?file1 = CHR ''/'' # d'" ..
  from ancestorsLoop_total [OF this Cons.prems, of y p req]
  obtain err st1 where a: "ancestorsLoop y p req False ?file1 st = Some (err, st1)" "scanInv st1"
    by blast
  show ?case
  proof (cases err)
    case None
    with a Cons.IH [OF a(2)] show ?thesis by (simp add: Let_def)
  next
    case (Some e)
    with a show ?thesis by (simp add: Let_def)
  qed
qed

section \<open>Lemmas: the resolution returns\<close>

lemma getScmConfigData_total: "\<exists>res. getScmConfigData y p req changedFiles = Some res"
proof -
  have "scanInv \<lparr>configData = [], cache = Map.empty, calls = []\<rparr>" by (simp add: scanInv_def)
  from changedFilesLoop_total [OF this, of y p req changedFiles]
  obtain err st' where
    "changedFilesLoop y p req changedFiles \<lparr>configData = [], cache = Map.empty, calls = []\<rparr>
       = Some (err, st')" by blast
  then show ?thesis by (cases err) (simp_all add: getScmConfigData_def)
qed

lemma Find_nil:
  assumes "(if server p = [] then Inr (NewDefault gh) else New gh (server p)) = Inr cl"
    and "getScmChanges p \<lparr>Build = Build r, Repo = Repo r, Client = cl\<rparr> = (Inr None, cs)"
  shows "Find y gh p r =
     (if Build_Trigger (Build r) = ''@cron'' \<or> fallback p
      then (case getAllConfigData p \<lparr>Build = Build r, Repo = Repo r, Client = cl\<rparr> ''/'' 0 of
              (Inl e, cs1) \<Rightarrow> Some (Inl e, cs @ cs1)
            | (Inr found, cs1) \<Rightarrow>
                if found = [] then Some (Inl DidNotFind, cs @ cs1)
                else Some (Inr (cleanup found), cs @ cs1))
      else Some (Inl DidNotFind, cs))"
  using assms by (auto simp: Find_def Let_def split: prod.splits sum.splits)

lemma Find_returns: "\<exists>res. Find y gh p r = Some res"
proof (cases "if server p = [] then Inr (NewDefault gh) else New gh (server p)")
  case (Inl e)
  then show ?thesis by (simp add: Find_def)
next
  case (Inr cl)
  let ?req = "\<lparr>Build = Build r, Repo = Repo r, Client = cl\<rparr>"
  obtain res cs where g: "getScmChanges p ?req = (res, cs)" by (cases "getScmChanges p ?req")
  show ?thesis
  proof (cases res)
    case (Inl e)
    with Inr g show ?thesis by (simp add: Find_def)
  next
    case changed: (Inr changedFiles)
    show ?thesis
    proof (cases changedFiles)
      case None
      with g changed have "getScmChanges p ?req = (Inr None, cs)" by simp
      from Find_nil [OF Inr this, of y] show ?thesis
        by (auto split: prod.splits sum.splits)
    next
      case (Some fs)
      from getScmConfigData_total [of y p ?req fs]
      obtain res1 cs1 where "getScmConfigData y p ?req fs = Some (res1, cs1)" by fastforce
      with Inr g changed Some show ?thesis by (cases res1) (simp_all add: Find_def)
    qed
  qed
qed

section \<open>Lemmas: the paths of the scenario\<close>

lemma Join_snoc: "xs \<noteq> [] \<Longrightarrow> Join (xs @ [b]) sep = Join xs sep @ sep @ b"
  by (induction xs sep rule: Join.induct) simp_all






section \<open>Lemmas: the walks of the scenario\<close>


section \<open>Lemmas: trimming a fragment that is one document\<close>







section \<open>Lemmas: the cleanup of documents without separators and markers\<close>



lemma dashes_Cons: "c \<noteq> CHR ''-'' \<Longrightarrow> sublist ''---'' (c # x) \<longleftrightarrow> sublist ''---'' x"
  by (simp add: sublist_Cons_right)







section \<open>Lemmas: counting the separator lines\<close>






section \<open>Lemmas: the resolution of a change set\<close>


section \<open>The claims\<close>

subsection \<open>C1: concat mode disabled\<close>

text \<open>
  C1 fails on the code. With concat disabled and the changed files \<open>a/b/x.go\<close> and
  \<open>a/y.go\<close> (the scenario of the specification), the \<open>break\<close> after the first merged
  config leaves the inner loop only: the walk of \<open>a/y.go\<close> still runs, fetches
  \<open>/a/.pipeline.yml\<close> and merges it, and the result holds two documents.
\<close>

theorem concat_disabled_merges_two:
  "Find exampleUnmarshal (exampleGithub treeAB [''a/b/x.go'', ''a/y.go''])
     (examplePlugin False False) (exampleEvent ''push'' ''1111'')
   = Some (Inr ''---\<newline>kind: pipeline\<newline>name: ab\<newline>---\<newline>kind: pipeline\<newline>name: a\<newline>'',
       [CallGitListChanges ''octo/mono'' ''2222'',
        CallContentsFind ''octo/mono'' ''/a/b/.pipeline.yml'' ''2222'',
        CallContentsFind ''octo/mono'' ''/a/.pipeline.yml'' ''2222''])"
  by code_simp

subsection \<open>C2: a candidate without a name\<close>

text \<open>
  C2 fails on the code where the content parses and has no name (or no kind):
  \<open>getScmDroneConfig\<close> sets the critical flag and returns the nil error of the successful
  parse, and \<open>getScmConfigData\<close> tests the error first. With \<open>/a/.pipeline.yml\<close> lacking a
  name and a valid \<open>/.pipeline.yml\<close>, the resolution in concat mode goes on to the root
  and returns its document; with concat disabled the walk ends at the candidate and the
  resolution reports that nothing was found. Where the parse itself fails, the error is
  returned and the resolution aborts, as the claim says.
\<close>

theorem missing_name_not_reported:
  "getScmDroneConfig exampleUnmarshal (examplePlugin True False)
     (exampleRequest treeBroken [''a/x.go''] ''push'' ''1111'') ''/a/.pipeline.yml''
     = (([], True, None), [CallContentsFind ''octo/mono'' ''/a/.pipeline.yml'' ''2222''])
   \<and> Find exampleUnmarshal (exampleGithub treeBroken [''a/x.go''])
       (examplePlugin True False) (exampleEvent ''push'' ''1111'')
     = Some (Inr ''---\<newline>kind: pipeline\<newline>name: a\<newline>'',
         [CallGitListChanges ''octo/mono'' ''2222'',
          CallContentsFind ''octo/mono'' ''/a/.pipeline.yml'' ''2222'',
          CallContentsFind ''octo/mono'' ''/.pipeline.yml'' ''2222''])
   \<and> Find exampleUnmarshal (exampleGithub treeBroken [''a/x.go''])
       (examplePlugin False False) (exampleEvent ''push'' ''1111'')
     = Some (Inl DidNotFind,
         [CallGitListChanges ''octo/mono'' ''2222'',
          CallContentsFind ''octo/mono'' ''/a/.pipeline.yml'' ''2222''])
   \<and> Find exampleUnmarshal (exampleGithub treeUnparsable [''a/x.go''])
       (examplePlugin True False) (exampleEvent ''push'' ''1111'')
     = Some (Inl (YamlError ''kind: [''),
         [CallGitListChanges ''octo/mono'' ''2222'',
          CallContentsFind ''octo/mono'' ''/a/.pipeline.yml'' ''2222''])"
  by (intro conjI) code_simp+

subsection \<open>C3: the directory-tree scanner\<close>

text \<open>
  C3 fails on the code. The loop over the directory entries is commented out: the scanner
  never returns a document that is not empty, and when the listing call succeeds within
  the depth bound it returns the text of the listing as an error. For a scheduled event on
  the example repository, whose root lists and holds a valid config, the resolution
  ends with that error.
\<close>

theorem scanner_collects_nothing:
  "(case fst (getAllConfigData p req dir depth) of Inl e \<Rightarrow> True | Inr doc \<Rightarrow> doc = [])
   \<and> Find exampleUnmarshal (exampleGithub treeListing []) (examplePlugin True True)
       (exampleEvent ''@cron'' ''1111'')
     = Some (Inl (ListingAsError ''a .pipeline.yml''), [CallContentsFind ''octo/mono'' ''/'' ''2222''])"
proof
  show "case fst (getAllConfigData p req dir depth) of Inl e \<Rightarrow> True | Inr doc \<Rightarrow> doc = []"
    by (simp add: getAllConfigData_def Let_def split: option.splits)
  show "Find exampleUnmarshal (exampleGithub treeListing []) (examplePlugin True True)
       (exampleEvent ''@cron'' ''1111'')
     = Some (Inl (ListingAsError ''a .pipeline.yml''), [CallContentsFind ''octo/mono'' ''/'' ''2222''])"
    by code_simp
qed

subsection \<open>C4: the revision the diff is asked for\<close>

text \<open>
  C4 fails on the code. The before-revision, or \<open>After~1\<close> in its place, is computed and
  never passed on: the result and the calls of \<open>getScmChanges\<close> do not depend on the
  before-revision of the event, and for a push the one call made is \<open>Git.ListChanges\<close>
  with the after-revision.
\<close>

theorem diff_ignores_before:
  "getScmChanges p (req\<lparr>Build := (Build req)\<lparr>Build_Before := b\<rparr>\<rparr>) = getScmChanges p req
   \<and> getScmChanges (examplePlugin True False) (exampleRequest [] [''a/x.go''] ''push'' ''1111'')
       = (Inr (Some [''a/x.go'']), [CallGitListChanges ''octo/mono'' ''2222''])
   \<and> getScmChanges (examplePlugin True False) (exampleRequest [] [''a/x.go''] ''push'' [])
       = (Inr (Some [''a/x.go'']), [CallGitListChanges ''octo/mono'' ''2222''])"
proof (intro conjI)
  show "getScmChanges p (req\<lparr>Build := (Build req)\<lparr>Build_Before := b\<rparr>\<rparr>) = getScmChanges p req"
    by (auto simp: getScmChanges_def Let_def split: sum.splits)
  show "getScmChanges (examplePlugin True False) (exampleRequest [] [''a/x.go''] ''push'' ''1111'')
       = (Inr (Some [''a/x.go'']), [CallGitListChanges ''octo/mono'' ''2222''])"
    by code_simp
  show "getScmChanges (examplePlugin True False) (exampleRequest [] [''a/x.go''] ''push'' [])
       = (Inr (Some [''a/x.go'']), [CallGitListChanges ''octo/mono'' ''2222''])"
    by code_simp
qed

subsection \<open>C5: the value returned for an empty change list\<close>

text \<open>
  C5, as amended. When the resolver obtains an empty list of changed files (from the
  pull-request listing or from the commit listing), it returns \<open>nil\<close> with no error, and
  this is the very value it returns for a scheduled trigger, for which it calls nothing.
  The caller tells the two cases apart by the trigger kind of the event, not by the
  returned value: on \<open>nil\<close> it scans the whole tree when the trigger is \<open>@cron\<close> or the
  fallback flag is set, and otherwise reports that nothing was found, with no further call.
\<close>

theorem getScmChanges_nil:
  "(Build_Trigger (Build req) = ''@cron'' \<longrightarrow> getScmChanges p req = (Inr None, []))
   \<and> (Build_Trigger (Build req) \<noteq> ''@cron'' \<and> HasPrefix (Build_Ref (Build req)) ''refs/pull/''
        \<and> Atoi (Split (Build_Ref (Build req)) CHR ''/'' ! 2) = Inr n
        \<and> PullRequests_ListChanges (Client req) (Repo_Slug (Repo req)) n = Inr []
      \<longrightarrow> fst (getScmChanges p req) = Inr None)
   \<and> (Build_Trigger (Build req) \<noteq> ''@cron'' \<and> \<not> HasPrefix (Build_Ref (Build req)) ''refs/pull/''
        \<and> Git_ListChanges (Client req) (Repo_Slug (Repo req)) (Build_After (Build req)) = Inr []
      \<longrightarrow> fst (getScmChanges p req) = Inr None)
   \<and> ((if server p = [] then Inr (NewDefault gh) else New gh (server p)) = Inr cl
        \<and> getScmChanges p \<lparr>Build = Build r, Repo = Repo r, Client = cl\<rparr> = (Inr None, cs)
      \<longrightarrow> Find y gh p r =
          (if Build_Trigger (Build r) = ''@cron'' \<or> fallback p
           then (case getAllConfigData p \<lparr>Build = Build r, Repo = Repo r, Client = cl\<rparr> ''/'' 0 of
                   (Inl e, cs1) \<Rightarrow> Some (Inl e, cs @ cs1)
                 | (Inr found, cs1) \<Rightarrow>
                     if found = [] then Some (Inl DidNotFind, cs @ cs1)
                     else Some (Inr (cleanup found), cs @ cs1))
           else Some (Inl DidNotFind, cs)))"
proof (intro conjI impI)
  assume "Build_Trigger (Build req) = ''@cron''"
  then show "getScmChanges p req = (Inr None, [])"
    by (simp add: getScmChanges_def returnChanges_def)
next
  assume "Build_Trigger (Build req) \<noteq> ''@cron'' \<and> HasPrefix (Build_Ref (Build req)) ''refs/pull/''
        \<and> Atoi (Split (Build_Ref (Build req)) CHR ''/'' ! 2) = Inr n
        \<and> PullRequests_ListChanges (Client req) (Repo_Slug (Repo req)) n = Inr []"
  then show "fst (getScmChanges p req) = Inr None"
    by (simp add: getScmChanges_def returnChanges_def)
next
  assume "Build_Trigger (Build req) \<noteq> ''@cron'' \<and> \<not> HasPrefix (Build_Ref (Build req)) ''refs/pull/''
        \<and> Git_ListChanges (Client req) (Repo_Slug (Repo req)) (Build_After (Build req)) = Inr []"
  then show "fst (getScmChanges p req) = Inr None"
    by (simp add: getScmChanges_def returnChanges_def Let_def)
next
  assume "(if server p = [] then Inr (NewDefault gh) else New gh (server p)) = Inr cl
        \<and> getScmChanges p \<lparr>Build = Build r, Repo = Repo r, Client = cl\<rparr> = (Inr None, cs)"
  then show "Find y gh p r =
          (if Build_Trigger (Build r) = ''@cron'' \<or> fallback p
           then (case getAllConfigData p \<lparr>Build = Build r, Repo = Repo r, Client = cl\<rparr> ''/'' 0 of
                   (Inl e, cs1) \<Rightarrow> Some (Inl e, cs @ cs1)
                 | (Inr found, cs1) \<Rightarrow>
                     if found = [] then Some (Inl DidNotFind, cs @ cs1)
                     else Some (Inr (cleanup found), cs @ cs1))
           else Some (Inl DidNotFind, cs))"
    by (simp add: Find_nil)
qed

text \<open>
  Witness of C5: a scheduled event, a pull request whose listing is empty, a push whose
  listing is empty, and the resolution of that push without the fallback flag.
\<close>

theorem getScmChanges_nil_witness:
  "getScmChanges (examplePlugin True False) (exampleRequest [] [] ''@cron'' ''1111'') = (Inr None, [])
   \<and> fst (getScmChanges (examplePlugin True False)
         ((exampleRequest [] [] ''pull_request'' ''1111'')
            \<lparr>Build := (Build (exampleRequest [] [] ''pull_request'' ''1111''))
               \<lparr>Build_Ref := ''refs/pull/12/head''\<rparr>\<rparr>)) = Inr None
   \<and> fst (getScmChanges (examplePlugin True False) (exampleRequest [] [] ''push'' ''1111'')) = Inr None
   \<and> Find exampleUnmarshal (exampleGithub [] []) (examplePlugin True False) (exampleEvent ''push'' ''1111'')
       = Some (Inl DidNotFind, [CallGitListChanges ''octo/mono'' ''2222''])"
proof (intro conjI)
  let ?p = "examplePlugin True False"
  let ?cron = "exampleRequest [] [] ''@cron'' ''1111''"
  let ?pr = "(exampleRequest [] [] ''pull_request'' ''1111'')
            \<lparr>Build := (Build (exampleRequest [] [] ''pull_request'' ''1111''))
               \<lparr>Build_Ref := ''refs/pull/12/head''\<rparr>\<rparr>"
  let ?push = "exampleRequest [] [] ''push'' ''1111''"
  have "Build_Trigger (Build ?cron) = ''@cron''" by (simp add: exampleRequest_def exampleEvent_def)
  with getScmChanges_nil [of ?cron ?p]
  show "getScmChanges ?p ?cron = (Inr None, [])" by blast
  have "Build_Trigger (Build ?pr) \<noteq> ''@cron'' \<and> HasPrefix (Build_Ref (Build ?pr)) ''refs/pull/''
        \<and> Atoi (Split (Build_Ref (Build ?pr)) CHR ''/'' ! 2) = Inr 12
        \<and> PullRequests_ListChanges (Client ?pr) (Repo_Slug (Repo ?pr)) 12 = Inr []"
    by (simp add: exampleRequest_def exampleEvent_def exampleClient_def HasPrefix_def Atoi_def
        isDigit_def digitsValue_def)
  with getScmChanges_nil [of ?pr ?p 12]
  show "fst (getScmChanges ?p ?pr) = Inr None" by blast
  have push: "Build_Trigger (Build ?push) \<noteq> ''@cron'' \<and> \<not> HasPrefix (Build_Ref (Build ?push)) ''refs/pull/''
        \<and> Git_ListChanges (Client ?push) (Repo_Slug (Repo ?push)) (Build_After (Build ?push)) = Inr []"
    by (simp add: exampleRequest_def exampleEvent_def exampleClient_def HasPrefix_def)
  with getScmChanges_nil [of ?push ?p]
  show "fst (getScmChanges ?p ?push) = Inr None" by blast
  let ?r = "exampleEvent ''push'' ''1111''"
  let ?gh = "exampleGithub [] []"
  have "(if server ?p = [] then Inr (NewDefault ?gh) else New ?gh (server ?p)) = Inr (NewDefault ?gh)
      \<and> getScmChanges ?p \<lparr>Build = Build ?r, Repo = Repo ?r, Client = NewDefault ?gh\<rparr>
          = (Inr None, [CallGitListChanges ''octo/mono'' ''2222''])"
    by (simp add: examplePlugin_def exampleEvent_def exampleGithub_def exampleClient_def
        getScmChanges_def returnChanges_def HasPrefix_def Let_def)
  with getScmChanges_nil [where p = ?p and r = ?r and gh = ?gh and cl = "NewDefault ?gh"
      and cs = "[CallGitListChanges ''octo/mono'' ''2222'']" and y = exampleUnmarshal]
  have "Find exampleUnmarshal ?gh ?p ?r =
          (if Build_Trigger (Build ?r) = ''@cron'' \<or> fallback ?p
           then (case getAllConfigData ?p \<lparr>Build = Build ?r, Repo = Repo ?r, Client = NewDefault ?gh\<rparr> ''/'' 0 of
                   (Inl e, cs1) \<Rightarrow> Some (Inl e, [CallGitListChanges ''octo/mono'' ''2222''] @ cs1)
                 | (Inr found, cs1) \<Rightarrow>
                     if found = [] then Some (Inl DidNotFind, [CallGitListChanges ''octo/mono'' ''2222''] @ cs1)
                     else Some (Inr (cleanup found), [CallGitListChanges ''octo/mono'' ''2222''] @ cs1))
           else Some (Inl DidNotFind, [CallGitListChanges ''octo/mono'' ''2222'']))" by blast
  then show "Find exampleUnmarshal ?gh ?p ?r = Some (Inl DidNotFind, [CallGitListChanges ''octo/mono'' ''2222''])"
    by (simp add: examplePlugin_def exampleEvent_def)
qed

text \<open>
  Counterexample to C5 as stated: for a push whose change list is empty the resolver
  returns the same value as for a scheduled event, so the value does not tell the two
  cases apart.
\<close>

theorem empty_changes_same_as_cron:
  "fst (getScmChanges (examplePlugin True False) (exampleRequest [] [] ''push'' ''1111''))
     = fst (getScmChanges (examplePlugin True False) (exampleRequest [] [] ''@cron'' ''1111''))
   \<and> fst (getScmChanges (examplePlugin True False) (exampleRequest [] [] ''push'' ''1111'')) = Inr None"
  by (simp add: getScmChanges_def returnChanges_def exampleRequest_def exampleEvent_def
      exampleClient_def HasPrefix_def Let_def)

subsection \<open>C6: no candidate path is fetched twice\<close>

text \<open>
  C6. For every list of changed files (and every parser, plugin and request),
  \<open>getScmConfigData\<close> returns, and the candidate paths it fetched, in the order of the
  \<open>Contents.Find\<close> calls, are pairwise distinct.
\<close>

theorem getScmConfigData_no_refetch:
  "\<exists>res cs. getScmConfigData y p req changedFiles = Some (res, cs) \<and> distinct (fetchedPaths cs)"
proof -
  have "scanInv \<lparr>configData = [], cache = Map.empty, calls = []\<rparr>" by (simp add: scanInv_def)
  from changedFilesLoop_total [OF this, of y p req changedFiles]
  obtain err st' where
    "changedFilesLoop y p req changedFiles \<lparr>configData = [], cache = Map.empty, calls = []\<rparr>
       = Some (err, st')"
    and "scanInv st'" by blast
  then show ?thesis by (cases err) (simp_all add: getScmConfigData_def scanInv_def)
qed

subsection \<open>C7: the cleanup applied twice\<close>

text \<open>
  C7, as amended. For every text in which, once the end-of-document markers are removed,
  no run of two or more separators that the pass collapses has a dash directly before it
  or directly after it (after the white space that ends the run), the cleanup applied
  twice gives the same text as the cleanup applied once.
\<close>

theorem cleanup_idempotent_isolated:
  assumes "runsIsolated False (strings_ReplaceAll s ''...'' [])"
  shows "cleanup (cleanup s) = cleanup s"
proof -
  have "cleanup (cleanup s) = dedupRegex_ReplaceAll (cleanup s)"
    by (subst (1) cleanup_def) (simp only: strip_cleanup)
  also have "\<dots> = cleanup s"
    unfolding cleanup_def using assms by (intro noMatch_fixed isolated_noMatch)
  finally show ?thesis .
qed

text \<open>
  Witness of C7: two pipeline documents with list items, an end marker between them and
  a doubled separator.
\<close>

theorem cleanup_idempotent_isolated_witness:
  "runsIsolated False (strings_ReplaceAll
      ''---\<newline>kind: pipeline\<newline>steps:\<newline>- name: a\<newline>...\<newline>---\<newline>\<newline>---\<newline>kind: pipeline\<newline>steps:\<newline>- name: b\<newline>'' ''...'' [])
   \<and> cleanup ''---\<newline>kind: pipeline\<newline>steps:\<newline>- name: a\<newline>...\<newline>---\<newline>\<newline>---\<newline>kind: pipeline\<newline>steps:\<newline>- name: b\<newline>''
       = ''---\<newline>kind: pipeline\<newline>steps:\<newline>- name: a\<newline>\<newline>---kind: pipeline\<newline>steps:\<newline>- name: b\<newline>''
   \<and> cleanup (cleanup ''---\<newline>kind: pipeline\<newline>steps:\<newline>- name: a\<newline>...\<newline>---\<newline>\<newline>---\<newline>kind: pipeline\<newline>steps:\<newline>- name: b\<newline>'')
       = cleanup ''---\<newline>kind: pipeline\<newline>steps:\<newline>- name: a\<newline>...\<newline>---\<newline>\<newline>---\<newline>kind: pipeline\<newline>steps:\<newline>- name: b\<newline>''"
proof (intro conjI)
  let ?s = "''---\<newline>kind: pipeline\<newline>steps:\<newline>- name: a\<newline>...\<newline>---\<newline>\<newline>---\<newline>kind: pipeline\<newline>steps:\<newline>- name: b\<newline>''"
  show i: "runsIsolated False (strings_ReplaceAll ?s ''...'' [])" by code_simp
  show "cleanup ?s = ''---\<newline>kind: pipeline\<newline>steps:\<newline>- name: a\<newline>\<newline>---kind: pipeline\<newline>steps:\<newline>- name: b\<newline>''"
    by code_simp
  show "cleanup (cleanup ?s) = cleanup ?s" using i by (rule cleanup_idempotent_isolated)
qed

text \<open>
  Counterexample to C7 as stated. In \<open>----\n-----\<close> the leftmost match starts at the
  second dash and ends before the last two; the first pass leaves six dashes, which the
  second pass collapses to three.
\<close>

theorem cleanup_not_idempotent:
  "cleanup ''----\<newline>-----'' = ''------''
   \<and> cleanup (cleanup ''----\<newline>-----'') = ''---''
   \<and> cleanup (cleanup ''----\<newline>-----'') \<noteq> cleanup ''----\<newline>-----''"
proof -
  have 1: "cleanup ''----\<newline>-----'' = ''------''" by code_simp
  have 2: "cleanup ''------'' = ''---''" by code_simp
  show ?thesis unfolding 1 2 by simp
qed

subsection \<open>C8: two changed files under one directory, concat mode\<close>




subsection \<open>C9: appending a blank fragment\<close>

text \<open>
  C9, as amended. For every accumulator and every list of fragments that consist only of
  spaces and newlines (the cutset of the \<open>strings.Trim\<close> call; the empty fragment
  included), \<open>droneConfigAppend\<close> returns the accumulator unchanged.
\<close>

theorem droneConfigAppend_blank:
  "\<forall>a\<in>set appends. \<forall>c\<in>set a. c = CHR '' '' \<or> c = CHR 0x0A \<Longrightarrow>
   droneConfigAppend acc appends = acc"
  by (induction appends arbitrary: acc) (simp_all add: Trim_blank)

text \<open>Witness of C9: three blank fragments appended to a one-document accumulator.\<close>

theorem droneConfigAppend_blank_witness:
  "droneConfigAppend ''---\<newline>kind: pipeline\<newline>'' ['' \<newline> '', [], ''\<newline>'']
     = ''---\<newline>kind: pipeline\<newline>''"
  using droneConfigAppend_blank [of "['' \<newline> '', [], ''\<newline>'']" "''---\<newline>kind: pipeline\<newline>''"]
  by simp

text \<open>
  Counterexample to C9 as stated: a fragment that is one tab is whitespace, and it is
  appended as a document of its own.
\<close>

theorem droneConfigAppend_tab_counterexample:
  "list_all isSpace [CHR 0x09]
   \<and> droneConfigAppend [] [[CHR 0x09]] = ''---\<newline>'' @ [CHR 0x09] @ ''\<newline>''"
proof
  show "list_all isSpace [CHR 0x09]" by (simp add: isSpace_def)
  show "droneConfigAppend [] [[CHR 0x09]] = ''---\<newline>'' @ [CHR 0x09] @ ''\<newline>''" by code_simp
qed

subsection \<open>C10: every \<open>...\<close> is removed\<close>

text \<open>
  C10. The cleanup first removes the occurrences of \<open>...\<close> and then collapses the
  separators. After the first step no \<open>...\<close> is left anywhere in the text, and only
  dots were removed: the other characters are the same, in the same order. No \<open>...\<close>
  is left in the final text either. The removal does not look at lines: a \<open>...\<close> inside
  a value goes too.
\<close>

theorem cleanup_strips_every_marker:
  "cleanup s = dedupRegex_ReplaceAll (strings_ReplaceAll s ''...'' [])
   \<and> \<not> sublist ''...'' (strings_ReplaceAll s ''...'' [])
   \<and> filter (\<lambda>c. c \<noteq> CHR ''.'') (strings_ReplaceAll s ''...'' []) = filter (\<lambda>c. c \<noteq> CHR ''.'') s
   \<and> \<not> sublist ''...'' (cleanup s)
   \<and> strings_ReplaceAll ''name: wait...for it\<newline>...\<newline>'' ''...'' [] = ''name: waitfor it\<newline>\<newline>''"
proof (intro conjI)
  show "cleanup s = dedupRegex_ReplaceAll (strings_ReplaceAll s ''...'' [])"
    by (simp add: cleanup_def)
  show "\<not> sublist ''...'' (strings_ReplaceAll s ''...'' [])" by (rule strip_no_dots)
  show "filter (\<lambda>c. c \<noteq> CHR ''.'') (strings_ReplaceAll s ''...'' []) = filter (\<lambda>c. c \<noteq> CHR ''.'') s"
    by (rule strip_keeps_others)
  show "\<not> sublist ''...'' (cleanup s)" by (rule cleanup_no_dots)
  show "strings_ReplaceAll ''name: wait...for it\<newline>...\<newline>'' ''...'' [] = ''name: waitfor it\<newline>\<newline>''"
    by code_simp
qed

end
